theory Spec2Isabelle
  imports Main "HOL-Library.Word"
begin

section \<open>The AssetStorage contract\<close>

text \<open>
  The contract of \<^verbatim>\<open>contracts/AssetStorage.sol\<close> (Solidity 0.8.18; the same
  text is repeated in \<^verbatim>\<open>blockchain_metaverse_app.js\<close>):
  \<^verbatim>\<open>
  contract AssetStorage {
      uint256 public nextId;
      mapping(uint256 => string) public cids;
      event AssetRegistered(uint256 indexed id, string cid);
      function register(string calldata cid) external returns (uint256 id) {
          id = nextId;
          cids[id] = cid;
          emit AssetRegistered(id, cid);
          nextId++;
      }
  }
  \<close>
  The storage is the counter and the mapping. A Solidity mapping answers every key:
  a key never written reads as the default value of the value type, for
  \<^verbatim>\<open>string\<close> the empty string. It is a total function here. The events
  the contract has emitted are kept in order in a log. Gas and call value are
  not part of the model.
\<close>

type_synonym uint256 = "256 word"

datatype event = AssetRegistered (event_id: uint256) (event_cid: string)

record AssetStorage =
  nextId :: uint256
  cids :: "uint256 \<Rightarrow> string"
  events :: "event list"

text \<open>
  The only failure the code of the contract can raise by itself: arithmetic
  outside \<^verbatim>\<open>unchecked\<close> is checked since Solidity 0.8.0, and an overflow
  is \<^verbatim>\<open>Panic(0x11)\<close>, which reverts the call.
\<close>

datatype error = Panic_0x11

text \<open>The state after deployment: there is no constructor, every slot is zero.\<close>

definition initial :: AssetStorage where
  "initial = \<lparr>nextId = 0, cids = (\<lambda>_. []), events = []\<rparr>"

subsection \<open>The statements of \<^verbatim>\<open>register\<close>\<close>

text \<open>\<^verbatim>\<open>cids[id] = cid;\<close>\<close>

definition store_cid :: "uint256 \<Rightarrow> string \<Rightarrow> AssetStorage \<Rightarrow> AssetStorage" where
  "store_cid i c s = s\<lparr>cids := (cids s)(i := c)\<rparr>"

text \<open>\<^verbatim>\<open>emit AssetRegistered(id, cid);\<close>\<close>

definition emit_AssetRegistered :: "uint256 \<Rightarrow> string \<Rightarrow> AssetStorage \<Rightarrow> AssetStorage" where
  "emit_AssetRegistered i c s = s\<lparr>events := events s @ [AssetRegistered i c]\<rparr>"

text \<open>
  \<^verbatim>\<open>nextId++;\<close> with the overflow check the compiler inserts: at
  \<open>2 ^ 256 - 1\<close> (the word \<open>- 1\<close>) the call panics.
\<close>

definition increment_nextId :: "AssetStorage \<Rightarrow> error + AssetStorage" where
  "increment_nextId s =
     (if nextId s = - 1 then Inl Panic_0x11 else Inr (s\<lparr>nextId := nextId s + 1\<rparr>))"

text \<open>
  \<^verbatim>\<open>register\<close>: the three statements in the order of the source. A call
  that reverts returns the error and no state: the caller's state stays as it
  was, the write and the event of the reverted call are gone.
\<close>

definition register :: "string \<Rightarrow> AssetStorage \<Rightarrow> error + (uint256 \<times> AssetStorage)" where
  "register c s =
     (let i = nextId s;
          s1 = store_cid i c s;
          s2 = emit_AssetRegistered i c s1
      in case increment_nextId s2 of
           Inl e \<Rightarrow> Inl e
         | Inr s3 \<Rightarrow> Inr (i, s3))"

subsection \<open>The external interface\<close>

text \<open>
  The contract has three external functions and no other: \<^verbatim>\<open>register\<close>
  and the two getters that \<^verbatim>\<open>public\<close> generates,
  \<^verbatim>\<open>nextId()\<close> and \<^verbatim>\<open>cids(uint256)\<close>. The getters are views:
  they return a value and leave the state as it is.
\<close>

datatype call = Register string | NextId | Cids uint256

datatype retval = RetUint uint256 | RetString string

fun exec :: "call \<Rightarrow> AssetStorage \<Rightarrow> error + (retval \<times> AssetStorage)" where
  "exec (Register c) s =
     (case register c s of Inl e \<Rightarrow> Inl e | Inr (i, s') \<Rightarrow> Inr (RetUint i, s'))"
| "exec NextId s = Inr (RetUint (nextId s), s)"
| "exec (Cids h) s = Inr (RetString (cids s h), s)"

text \<open>One transaction: a reverted call leaves the state unchanged.\<close>

definition step :: "call \<Rightarrow> AssetStorage \<Rightarrow> AssetStorage" where
  "step c s = (case exec c s of Inl e \<Rightarrow> s | Inr (r, s') \<Rightarrow> s')"

text \<open>A history of transactions, executed one after the other.\<close>

fun run :: "call list \<Rightarrow> AssetStorage \<Rightarrow> AssetStorage" where
  "run [] s = s"
| "run (c # cs) s = run cs (step c s)"

text \<open>
  A caller registering a list of content identifiers one after the other,
  collecting the handles; it stops at the first call that reverts.
\<close>

fun register_all :: "string list \<Rightarrow> AssetStorage \<Rightarrow> error + (uint256 list \<times> AssetStorage)" where
  "register_all [] s = Inr ([], s)"
| "register_all (c # cs) s =
     (case register c s of
        Inl e \<Rightarrow> Inl e
      | Inr (i, s') \<Rightarrow>
          (case register_all cs s' of
             Inl e \<Rightarrow> Inl e
           | Inr (is, s'') \<Rightarrow> Inr (i # is, s'')))"

subsection \<open>Reading a record\<close>

text \<open>
  The contract has no lookup that can answer "not found": the getter
  \<^verbatim>\<open>cids(uint256)\<close> answers every key with a string and never reverts.
  What a reader of the getter can see of an absent record is the default value,
  the empty string. \<open>getRecord\<close> is the getter read in that way, and
  \<open>count\<close> is the getter of the counter.
\<close>

datatype lookup = NotFound | Found string

definition getRecord :: "AssetStorage \<Rightarrow> uint256 \<Rightarrow> lookup" where
  "getRecord s h =
     (case exec (Cids h) s of
        Inr (RetString r, _) \<Rightarrow> (if r = [] then NotFound else Found r)
      | _ \<Rightarrow> NotFound)"

definition count :: "AssetStorage \<Rightarrow> uint256" where
  "count s = nextId s"

text \<open>
  The state reached from the initial one by \<open>2 ^ 256 - 1\<close> registrations of
  the empty string: the counter has its largest value.
\<close>

definition full :: AssetStorage where
  "full = run (replicate (2 ^ 256 - 1) (Register [])) initial"

text \<open>
  Which keys hold a record. A key of the mapping is present when it reads as
  something other than the default; a key \<^verbatim>\<open>register\<close> has written is
  also the \<^verbatim>\<open>id\<close> of the event emitted with the write. Both kinds of
  key lie below the counter.
\<close>

definition keys_below_nextId :: "AssetStorage \<Rightarrow> bool" where
  "keys_below_nextId s \<longleftrightarrow>
     (\<forall>h. cids s h \<noteq> [] \<longrightarrow> h < nextId s) \<and>
     (\<forall>e \<in> set (events s). event_id e < nextId s)"

text \<open>Every event in the log has its record in the mapping.\<close>

definition events_stored :: "AssetStorage \<Rightarrow> bool" where
  "events_stored s \<longleftrightarrow> (\<forall>e \<in> set (events s). cids s (event_id e) = event_cid e)"

section \<open>Basic facts\<close>

lemma register_eq:
  "register c s =
     (if nextId s = - 1 then Inl Panic_0x11
      else Inr (nextId s,
        s\<lparr>cids := (cids s)(nextId s := c),
          events := events s @ [AssetRegistered (nextId s) c],
          nextId := nextId s + 1\<rparr>))"
  by (simp add: register_def store_cid_def emit_AssetRegistered_def increment_nextId_def Let_def)

lemma register_Inr:
  "register c s = Inr (i, s') \<longleftrightarrow>
     nextId s \<noteq> - 1 \<and> i = nextId s \<and>
     s' = s\<lparr>cids := (cids s)(nextId s := c),
            events := events s @ [AssetRegistered (nextId s) c],
            nextId := nextId s + 1\<rparr>"
  by (auto simp: register_eq)

lemma register_Inl: "register c s = Inl e \<longleftrightarrow> nextId s = - 1"
  by (cases e) (simp add: register_eq)

lemma step_Register:
  "step (Register c) s =
     (if nextId s = - 1 then s
      else s\<lparr>cids := (cids s)(nextId s := c),
             events := events s @ [AssetRegistered (nextId s) c],
             nextId := nextId s + 1\<rparr>)"
  by (simp add: step_def register_eq)

lemma step_view [simp]: "step NextId s = s" "step (Cids h) s = s"
  by (simp_all add: step_def)

lemma exec_step: "exec c s = Inr (r, s') \<Longrightarrow> step c s = s'"
  by (simp add: step_def)

text \<open>The counter as a natural number: below \<open>2 ^ 256 - 1\<close> the increment does not wrap.\<close>

lemma unat_inc: "(x::uint256) \<noteq> - 1 \<Longrightarrow> unat (x + 1) = Suc (unat x)"
proof -
  assume "x \<noteq> - 1"
  then have "1 + x \<noteq> 0"
    by (metis add_eq_0_iff)
  then show ?thesis
    using unatSuc [of x] by (simp add: add.commute)
qed

lemma less_inc_iff: "(x::uint256) \<noteq> - 1 \<Longrightarrow> h < x + 1 \<longleftrightarrow> h \<le> x"
  by (simp add: word_less_nat_alt word_le_nat_alt unat_inc) arith

section \<open>Histories: the counter grows, records stay, the invariants hold\<close>

lemma unat_max: "unat (- 1 :: uint256) = 2 ^ 256 - 1"
  by (simp add: unsigned_minus_1_eq_mask mask_eq_exp_minus_1)

lemma nextId_step_mono: "nextId s \<le> nextId (step c s)"
proof (cases c)
  case (Register cid)
  then show ?thesis
    by (simp add: step_Register word_le_nat_alt unat_inc)
qed simp_all

lemma cids_step_below: "h < nextId s \<Longrightarrow> cids (step c s) h = cids s h"
  by (cases c) (auto simp: step_Register)

lemma cids_run_below: "h < nextId s \<Longrightarrow> cids (run cs s) h = cids s h"
proof (induction cs arbitrary: s)
  case Nil
  then show ?case by simp
next
  case (Cons c cs)
  from Cons.prems have "h < nextId (step c s)"
    using nextId_step_mono [of s c] by simp
  then have "cids (run cs (step c s)) h = cids (step c s) h"
    by (rule Cons.IH)
  with Cons.prems show ?case
    by (simp add: cids_step_below)
qed

lemma keys_below_initial: "keys_below_nextId initial"
  by (simp add: keys_below_nextId_def initial_def)

lemma keys_below_step: "keys_below_nextId s \<Longrightarrow> keys_below_nextId (step c s)"
proof (cases c)
  case (Register cid)
  assume inv: "keys_below_nextId s"
  show ?thesis
  proof (cases "nextId s = - 1")
    case True
    with inv Register show ?thesis by (simp add: step_Register)
  next
    case False
    with inv Register show ?thesis
      by (auto simp: step_Register keys_below_nextId_def less_inc_iff)
  qed
qed simp_all

lemma keys_below_run: "keys_below_nextId s \<Longrightarrow> keys_below_nextId (run cs s)"
  by (induction cs arbitrary: s) (simp_all add: keys_below_step)

lemma events_stored_step:
  "keys_below_nextId s \<Longrightarrow> events_stored s \<Longrightarrow> events_stored (step c s)"
proof (cases c)
  case (Register cid)
  assume inv: "keys_below_nextId s" and st: "events_stored s"
  then show ?thesis using Register
    by (auto simp: step_Register keys_below_nextId_def events_stored_def)
qed simp_all

lemma events_stored_run:
  "keys_below_nextId s \<Longrightarrow> events_stored s \<Longrightarrow> events_stored (run cs s)"
  by (induction cs arbitrary: s) (simp_all add: keys_below_step events_stored_step)

lemma register_all_from:
  "register_all cs s = Inr (hs, s') \<Longrightarrow>
     map unat hs = [unat (nextId s) ..< unat (nextId s) + length cs] \<and>
     unat (nextId s') = unat (nextId s) + length cs"
proof (induction cs arbitrary: s hs)
  case Nil
  then show ?case by simp
next
  case (Cons c cs)
  from Cons.prems obtain i s1 where r: "register c s = Inr (i, s1)"
    by (auto split: sum.splits)
  with Cons.prems obtain hs' where rest: "register_all cs s1 = Inr (hs', s')" and hs: "hs = i # hs'"
    by (auto split: sum.splits)
  from r have i: "i = nextId s" and n: "unat (nextId s1) = Suc (unat (nextId s))"
    by (simp_all add: register_Inr unat_inc)
  from Cons.IH [OF rest] n
  have "map unat hs' = [Suc (unat (nextId s)) ..< Suc (unat (nextId s)) + length cs]"
    and "unat (nextId s') = Suc (unat (nextId s)) + length cs"
    by simp_all
  with hs i show ?case
    using upt_conv_Cons [of "unat (nextId s)" "unat (nextId s) + length (c # cs)"]
    by simp
qed

lemma register_all_succeeds_from:
  "unat (nextId s) + length cs < 2 ^ 256 \<Longrightarrow> \<exists>hs s'. register_all cs s = Inr (hs, s')"
proof (induction cs arbitrary: s)
  case Nil
  then show ?case by simp
next
  case (Cons c cs)
  have "unat (nextId s) \<noteq> 2 ^ 256 - 1"
    using Cons.prems by simp
  then have ne: "nextId s \<noteq> - 1"
    using unat_max by auto
  then obtain s1 where r: "register c s = Inr (nextId s, s1)" and n: "nextId s1 = nextId s + 1"
    by (simp add: register_Inr)
  from ne n Cons.prems have "unat (nextId s1) + length cs < 2 ^ 256"
    by (simp add: unat_inc)
  from Cons.IH [OF this] r show ?case
    by auto
qed

text \<open>The full registry: its counter is \<open>2 ^ 256 - 1\<close>, and the key of that value is unwritten.\<close>

lemma of_nat_max: "(of_nat (2 ^ 256 - 1) :: uint256) = - 1"
proof -
  have "unat (of_nat (2 ^ 256 - 1) :: uint256) = unat (- 1 :: uint256)"
    by (simp add: unat_max unat_of_nat)
  then show ?thesis
    by (simp only: word_unat_eq_iff)
qed

lemma nextId_run_replicate:
  "unat (nextId s) + n < 2 ^ 256 \<Longrightarrow>
     nextId (run (replicate n (Register c)) s) = nextId s + of_nat n"
proof (induction n arbitrary: s)
  case 0
  then show ?case by simp
next
  case (Suc n)
  have "unat (nextId s) \<noteq> 2 ^ 256 - 1"
    using Suc.prems by simp
  then have ne: "nextId s \<noteq> - 1"
    using unat_max by auto
  then have st: "nextId (step (Register c) s) = nextId s + 1"
    by (simp add: step_Register)
  with ne Suc.prems have "unat (nextId (step (Register c) s)) + n < 2 ^ 256"
    by (simp add: unat_inc)
  from Suc.IH [OF this] st show ?case
    by simp
qed

lemma nextId_full: "nextId full = - 1"
proof -
  have "unat (nextId initial) + (2 ^ 256 - 1) < (2::nat) ^ 256"
    by (simp add: initial_def)
  from nextId_run_replicate [OF this, of "[]"] show ?thesis
    by (simp add: full_def of_nat_max initial_def)
qed

lemma cids_full_top: "cids full (- 1) = []"
proof -
  have "keys_below_nextId full"
    unfolding full_def by (rule keys_below_run) (rule keys_below_initial)
  then have "cids full (- 1) \<noteq> [] \<longrightarrow> (- 1 :: uint256) < - 1"
    unfolding keys_below_nextId_def nextId_full by blast
  then show ?thesis by simp
qed

section \<open>The claims\<close>

subsection \<open>C1: the effect of \<^verbatim>\<open>register\<close>\<close>

text \<open>
  C1, as it holds on the code. For every string and every state whose counter is
  below \<open>2 ^ 256 - 1\<close>, \<^verbatim>\<open>register\<close> succeeds and returns the
  counter as the handle; it writes the string at that key and at no other, the
  counter grows by exactly one (as a number, without wrapping), the log grows by
  the one event carrying the handle and the string, and the set of handles below
  the counter grows by exactly the new handle.
\<close>

theorem register_effect:
  assumes "nextId s \<noteq> - 1"
  shows "\<exists>s'. register c s = Inr (nextId s, s') \<and>
           cids s' = (cids s)(nextId s := c) \<and>
           nextId s' = nextId s + 1 \<and>
           unat (nextId s') = unat (nextId s) + 1 \<and>
           events s' = events s @ [AssetRegistered (nextId s) c] \<and>
           {h. h < nextId s'} = insert (nextId s) {h. h < nextId s} \<and>
           nextId s \<notin> {h. h < nextId s}"
proof -
  let ?s' = "s\<lparr>cids := (cids s)(nextId s := c),
               events := events s @ [AssetRegistered (nextId s) c],
               nextId := nextId s + 1\<rparr>"
  have r: "register c s = Inr (nextId s, ?s')"
    using assms by (simp add: register_eq)
  have keys: "{h. h < nextId ?s'} = insert (nextId s) {h. h < nextId s}"
    using assms by (auto simp: less_inc_iff)
  have "unat (nextId ?s') = unat (nextId s) + 1"
    using assms by (simp add: unat_inc)
  with r keys show ?thesis
    by (intro exI [of _ ?s']) simp
qed

text \<open>
  The effect at the first registration of \<open>''cidA''\<close>.
\<close>

theorem register_effect_witness:
  "nextId initial \<noteq> - 1 \<and>
   (\<exists>s'. register ''cidA'' initial = Inr (0, s') \<and>
      cids s' 0 = ''cidA'' \<and> cids s' 1 = [] \<and> nextId s' = 1 \<and>
      events s' = [AssetRegistered 0 ''cidA''])"
proof -
  have h: "nextId initial \<noteq> - 1"
    by (simp add: initial_def)
  from register_effect [OF h, of "''cidA''"] obtain s' where
    "register ''cidA'' initial = Inr (nextId initial, s')"
    "cids s' = (cids initial)(nextId initial := ''cidA'')"
    "nextId s' = nextId initial + 1"
    "events s' = events initial @ [AssetRegistered (nextId initial) ''cidA'']"
    by blast
  then have "register ''cidA'' initial = Inr (0, s') \<and>
      cids s' 0 = ''cidA'' \<and> cids s' 1 = [] \<and> nextId s' = 1 \<and>
      events s' = [AssetRegistered 0 ''cidA'']"
    by (simp add: initial_def)
  with h show ?thesis by blast
qed

text \<open>
  C1 as stated speaks of every state. In the state \<open>full\<close>, reached from the
  initial one and with the counter at \<open>2 ^ 256 - 1\<close>, the checked increment
  panics and the call reverts: the counter is not incremented, the string is not
  stored, no event is emitted.
\<close>

theorem register_full_counterexample:
  "register ''cidA'' full = Inl Panic_0x11 \<and>
   nextId (step (Register ''cidA'') full) = nextId full \<and>
   cids (step (Register ''cidA'') full) (nextId full) \<noteq> ''cidA'' \<and>
   events (step (Register ''cidA'') full) = events full"
  by (simp add: register_eq step_Register nextId_full cids_full_top)

subsection \<open>C2: the handles of serial registrations\<close>

text \<open>
  Registering any list of fewer than \<open>2 ^ 256\<close> strings from the initial
  state succeeds.
\<close>

lemma register_all_succeeds:
  "length cs < 2 ^ 256 \<Longrightarrow> \<exists>hs s'. register_all cs initial = Inr (hs, s')"
  by (rule register_all_succeeds_from) (simp add: initial_def)

text \<open>
  C2. When \<open>N\<close> registrations in a row from the initial state all succeed, the
  handles returned are, in the order of the calls, exactly \<open>0, 1, \<dots>, N - 1\<close>,
  and the counter is \<open>N\<close> afterwards.
\<close>

theorem register_all_handles:
  assumes "register_all cs initial = Inr (hs, s')"
  shows "map unat hs = [0 ..< length cs] \<and> unat (nextId s') = length cs"
  using register_all_from [OF assms] by (simp add: initial_def)

text \<open>
  Three registrations, two of them of the same string.
\<close>

theorem register_all_handles_witness:
  "register_all [''cidA'', ''cidB'', ''cidA''] initial =
     Inr ([0, 1, 2], run [Register ''cidA'', Register ''cidB'', Register ''cidA''] initial) \<and>
   map unat [0, 1, 2 :: uint256] = [0 ..< length [''cidA'', ''cidB'', ''cidA'']]"
proof -
  have h: "register_all [''cidA'', ''cidB'', ''cidA''] initial =
     Inr ([0, 1, 2], run [Register ''cidA'', Register ''cidB'', Register ''cidA''] initial)"
    by (simp add: register_eq step_Register initial_def)
  from register_all_handles [OF h] h show ?thesis by simp
qed

subsection \<open>C3: looking up a handle\<close>

text \<open>
  C3, as it holds on the code. In every state reached from the initial one, the
  lookup of any handle returns a value and never fails. For a handle at or above
  the counter it returns the empty string, which \<open>getRecord\<close> reads as
  \<open>NotFound\<close>. The converse holds only up to empty records: the lookup is
  \<open>NotFound\<close> exactly when the handle is at or above the counter or the string
  stored at it is empty, and any other answer is the string registered at a handle
  below the counter.
\<close>

theorem getRecord_NotFound:
  "exec (Cids h) (run cs initial) = Inr (RetString (cids (run cs initial) h), run cs initial) \<and>
   (nextId (run cs initial) \<le> h \<longrightarrow> getRecord (run cs initial) h = NotFound) \<and>
   (getRecord (run cs initial) h = NotFound \<longleftrightarrow>
      nextId (run cs initial) \<le> h \<or> cids (run cs initial) h = []) \<and>
   (getRecord (run cs initial) h \<noteq> NotFound \<longrightarrow>
      h < nextId (run cs initial) \<and> getRecord (run cs initial) h = Found (cids (run cs initial) h))"
proof -
  define s where "s = run cs initial"
  have "keys_below_nextId s"
    unfolding s_def by (rule keys_below_run) (rule keys_below_initial)
  then have below: "cids s h \<noteq> [] \<Longrightarrow> h < nextId s"
    by (simp add: keys_below_nextId_def)
  have g: "getRecord s h = (if cids s h = [] then NotFound else Found (cids s h))"
    by (simp add: getRecord_def)
  from below g have "exec (Cids h) s = Inr (RetString (cids s h), s) \<and>
         (nextId s \<le> h \<longrightarrow> getRecord s h = NotFound) \<and>
         (getRecord s h = NotFound \<longleftrightarrow> nextId s \<le> h \<or> cids s h = []) \<and>
         (getRecord s h \<noteq> NotFound \<longrightarrow> h < nextId s \<and> getRecord s h = Found (cids s h))"
    by (auto simp: not_le)
  then show ?thesis
    unfolding s_def .
qed

text \<open>
  After registering \<open>''cidA''\<close> and then the empty string: handle 2 is not
  assigned, handle 1 holds the empty string, handle 0 holds \<open>''cidA''\<close>.
\<close>

theorem getRecord_NotFound_witness:
  "getRecord (run [Register ''cidA'', Register []] initial) 2 = NotFound \<and>
   getRecord (run [Register ''cidA'', Register []] initial) 1 = NotFound \<and>
   getRecord (run [Register ''cidA'', Register []] initial) 0 = Found ''cidA'' \<and>
   nextId (run [Register ''cidA'', Register []] initial) = 2"
proof -
  have n: "nextId (run [Register ''cidA'', Register []] initial) = 2"
    by (simp add: step_Register initial_def)
  have c: "cids (run [Register ''cidA'', Register []] initial) 0 = ''cidA''"
          "cids (run [Register ''cidA'', Register []] initial) 1 = []"
    by (simp_all add: step_Register initial_def)
  show ?thesis
    using getRecord_NotFound [of 2 "[Register ''cidA'', Register []]"]
      getRecord_NotFound [of 1 "[Register ''cidA'', Register []]"]
      getRecord_NotFound [of 0 "[Register ''cidA'', Register []]"]
      n c
    by simp
qed

text \<open>
  C3 as stated is an equivalence. After the empty string has been registered at
  handle 0, the lookup of 0 reads as \<open>NotFound\<close> although 0 is below the
  counter.
\<close>

theorem getRecord_empty_cid_counterexample:
  "\<not> (getRecord (step (Register []) initial) 0 = NotFound \<longleftrightarrow>
        nextId (step (Register []) initial) \<le> 0)"
  by (simp add: getRecord_def step_Register initial_def)

subsection \<open>C4: every key lies below the counter\<close>

text \<open>
  C4. Every key that holds a record, and every key that an event names, is
  strictly below the counter: this holds in the initial state, every call of the
  interface (\<^verbatim>\<open>register\<close>, \<^verbatim>\<open>nextId()\<close>,
  \<^verbatim>\<open>cids(uint256)\<close>) that returns keeps it, a transaction keeps it
  whether it returns or reverts, and so it holds after every history.
\<close>

theorem keys_below_nextId_invariant:
  "keys_below_nextId initial \<and>
   (keys_below_nextId s \<and> exec c s = Inr (r, s') \<longrightarrow> keys_below_nextId s') \<and>
   (keys_below_nextId s \<longrightarrow> keys_below_nextId (step c s)) \<and>
   keys_below_nextId (run cs initial)"
proof -
  have "keys_below_nextId s'" if "keys_below_nextId s" "exec c s = Inr (r, s')"
    using that keys_below_step [of s c] by (simp add: exec_step)
  moreover have "keys_below_nextId (run cs initial)"
    by (rule keys_below_run) (rule keys_below_initial)
  ultimately show ?thesis
    by (auto simp: keys_below_initial keys_below_step)
qed

text \<open>
  The invariant at work: after \<open>''cidA''\<close> is registered, key 0 holds a
  record, the log holds the event of handle 0, and both are below the counter.
\<close>

theorem keys_below_nextId_invariant_witness:
  "keys_below_nextId initial \<and>
   exec (Register ''cidA'') initial = Inr (RetUint 0, step (Register ''cidA'') initial) \<and>
   keys_below_nextId (step (Register ''cidA'') initial) \<and>
   cids (step (Register ''cidA'') initial) 0 \<noteq> [] \<and>
   event_id (AssetRegistered 0 ''cidA'') < nextId (step (Register ''cidA'') initial) \<and>
   AssetRegistered 0 ''cidA'' \<in> set (events (step (Register ''cidA'') initial)) \<and>
   keys_below_nextId (run [Register ''cidA'', Cids 0, NextId, Register ''cidB''] initial)"
proof -
  have x: "exec (Register ''cidA'') initial = Inr (RetUint 0, step (Register ''cidA'') initial)"
    by (simp add: register_eq step_Register initial_def)
  note inv = keys_below_nextId_invariant
    [of initial "Register ''cidA''" "RetUint 0" "step (Register ''cidA'') initial"
      "[Register ''cidA'', Cids 0, NextId, Register ''cidB'']"]
  have i: "keys_below_nextId initial"
    using inv by blast
  have k: "keys_below_nextId (step (Register ''cidA'') initial)"
    using inv x by blast
  have "cids (step (Register ''cidA'') initial) 0 \<noteq> []"
    "event_id (AssetRegistered 0 ''cidA'') < nextId (step (Register ''cidA'') initial)"
    "AssetRegistered 0 ''cidA'' \<in> set (events (step (Register ''cidA'') initial))"
    by (simp_all add: step_Register initial_def)
  moreover have "keys_below_nextId (run [Register ''cidA'', Cids 0, NextId, Register ''cidB''] initial)"
    using inv by blast
  ultimately show ?thesis
    using x i k by blast
qed

subsection \<open>C5: records never change\<close>

text \<open>
  C5. A handle below the counter keeps its string for ever: after any history of
  calls from any state the lookup of the handle returns what it returned before,
  and the handle stays below the counter. No call of the interface changes the
  record of an assigned handle, so there is no update and no delete; a further
  \<^verbatim>\<open>register\<close> writes at a different handle.
\<close>

theorem records_immutable:
  assumes "h < nextId s"
  shows "cids (run cs s) h = cids s h \<and>
         getRecord (run cs s) h = getRecord s h \<and>
         h < nextId (run cs s) \<and>
         (exec c s = Inr (r, s') \<longrightarrow> cids s' h = cids s h \<and> h < nextId s') \<and>
         (register cid s = Inr (i, s'') \<longrightarrow> cids s'' h = cids s h \<and> i \<noteq> h)"
proof -
  have run: "cids (run cs s) h = cids s h"
    using assms by (rule cids_run_below)
  have mono: "nextId s \<le> nextId (run cs s)" for cs
  proof (induction cs arbitrary: s)
    case Nil
    show ?case by simp
  next
    case (Cons a cs)
    have "nextId s \<le> nextId (step a s)"
      by (rule nextId_step_mono)
    also have "\<dots> \<le> nextId (run cs (step a s))"
      by (rule Cons.IH)
    finally show ?case by simp
  qed
  have ex: "cids s' h = cids s h \<and> h < nextId s'" if "exec c s = Inr (r, s')"
  proof -
    from that have "s' = step c s"
      by (simp add: exec_step)
    with assms nextId_step_mono [of s c] show ?thesis
      by (simp add: cids_step_below)
  qed
  have reg: "cids s'' h = cids s h \<and> i \<noteq> h" if "register cid s = Inr (i, s'')"
    using that assms by (auto simp: register_Inr)
  from run have "getRecord (run cs s) h = getRecord s h"
    by (simp add: getRecord_def)
  with run mono [of cs] assms ex reg show ?thesis
    by auto
qed

text \<open>
  Handle 0 holds \<open>''cidA''\<close> before and after two more registrations and two
  reads.
\<close>

theorem records_immutable_witness:
  "0 < nextId (step (Register ''cidA'') initial) \<and>
   cids (run [Register ''cidB'', Register [], Cids 0, NextId] (step (Register ''cidA'') initial)) 0 = ''cidA'' \<and>
   getRecord (run [Register ''cidB'', Register [], Cids 0, NextId] (step (Register ''cidA'') initial)) 0 = Found ''cidA''"
proof -
  have h: "0 < nextId (step (Register ''cidA'') initial)"
    by (simp add: step_Register initial_def)
  have c: "cids (step (Register ''cidA'') initial) 0 = ''cidA''"
    "getRecord (step (Register ''cidA'') initial) 0 = Found ''cidA''"
    by (simp_all add: getRecord_def step_Register initial_def)
  from records_immutable [OF h, of "[Register ''cidB'', Register [], Cids 0, NextId]"] c h
  show ?thesis by simp
qed

subsection \<open>C6: the empty registry and the counter\<close>

text \<open>
  C6. In the initial state the counter reads 0 and the lookup of handle 0 gives
  the empty string, that is \<open>NotFound\<close>; in every state the getter of the
  counter returns the counter and changes nothing.
\<close>

theorem empty_registry:
  "count initial = 0 \<and>
   exec NextId initial = Inr (RetUint 0, initial) \<and>
   exec (Cids 0) initial = Inr (RetString [], initial) \<and>
   getRecord initial 0 = NotFound \<and>
   count s = nextId s \<and>
   exec NextId s = Inr (RetUint (nextId s), s)"
  by (simp add: count_def getRecord_def initial_def)

subsection \<open>C7: the same string twice\<close>

text \<open>
  C7. From the initial state, registering the same string twice succeeds both
  times and returns the handles 0 and 1, which differ; both handles hold the
  string afterwards. This holds for every string, \<open>''cidX''\<close> among them.
\<close>

theorem duplicate_cid_two_handles:
  "register_all [c, c] initial = Inr ([0, 1], run [Register c, Register c] initial) \<and>
   register c initial = Inr (0, step (Register c) initial) \<and>
   register c (step (Register c) initial) = Inr (1, run [Register c, Register c] initial) \<and>
   (0 :: uint256) \<noteq> 1 \<and>
   cids (run [Register c, Register c] initial) 0 = c \<and>
   cids (run [Register c, Register c] initial) 1 = c \<and>
   nextId (run [Register c, Register c] initial) = 2"
  by (simp add: register_eq step_Register initial_def)

subsection \<open>C8: no validation of the string\<close>

text \<open>
  C8, as it holds on the code. \<^verbatim>\<open>register\<close> never looks at the
  string: it fails exactly when the counter is \<open>2 ^ 256 - 1\<close>, whatever the
  string, and in every other state it succeeds for every string (empty,
  malformed or not) and stores the string as given, so that an empty string reads
  back as empty.
\<close>

theorem register_no_validation:
  "(register c s = Inl e \<longleftrightarrow> nextId s = - 1) \<and>
   (nextId s \<noteq> - 1 \<longrightarrow>
      (\<exists>s'. register c s = Inr (nextId s, s') \<and> cids s' (nextId s) = c \<and>
            getRecord s' (nextId s) = (if c = [] then NotFound else Found c)))"
  by (simp add: register_Inl register_Inr getRecord_def)

text \<open>
  The empty string and a string that is no content identifier, registered in the
  initial state.
\<close>

theorem register_no_validation_witness:
  "nextId initial \<noteq> - 1 \<and>
   (\<exists>s'. register [] initial = Inr (0, s') \<and> cids s' 0 = []) \<and>
   (\<exists>s'. register ''not a cid'' initial = Inr (0, s') \<and> cids s' 0 = ''not a cid'')"
proof -
  have h: "nextId initial \<noteq> - 1"
    by (simp add: initial_def)
  have z: "nextId initial = 0"
    by (simp add: initial_def)
  from register_no_validation [of "[]" initial Panic_0x11]
    register_no_validation [of "''not a cid''" initial Panic_0x11] h
  show ?thesis
    unfolding z by blast
qed

text \<open>
  C8 as stated says that \<^verbatim>\<open>register\<close> raises no error for any string.
  In the state \<open>full\<close>, with the counter at \<open>2 ^ 256 - 1\<close>, the call
  panics, for the empty string as for any other.
\<close>

theorem register_empty_cid_full_counterexample:
  "register [] full = Inl Panic_0x11"
  by (simp add: register_eq nextId_full)

subsection \<open>C9: the event of a registration\<close>

text \<open>
  C9. A call of \<^verbatim>\<open>register\<close> that succeeds appends exactly one event
  to the log, within the call, and the event carries the returned handle and the
  submitted string. The event is emitted in the state in which the record is
  already written: the call is the store, then the emit, then the increment. In
  every state reached from the initial one, each event of the log has its record
  in the mapping.
\<close>

theorem register_emits_after_store:
  assumes "register c s = Inr (h, s')"
  shows "events s' = events s @ [AssetRegistered h c] \<and>
         cids s' h = c \<and>
         cids (store_cid h c s) h = c \<and>
         events (store_cid h c s) = events s \<and>
         events (emit_AssetRegistered h c (store_cid h c s)) = events s @ [AssetRegistered h c] \<and>
         increment_nextId (emit_AssetRegistered h c (store_cid h c s)) = Inr s' \<and>
         events_stored (run cs initial)"
proof -
  have "events_stored initial"
    by (simp add: events_stored_def initial_def)
  then have "events_stored (run cs initial)"
    by (rule events_stored_run [OF keys_below_initial])
  with assms show ?thesis
    by (auto simp: register_def Let_def store_cid_def emit_AssetRegistered_def
        increment_nextId_def split: if_splits)
qed

text \<open>
  The first registration of \<open>''cidA''\<close>: one event, with handle 0, and the
  record is there.
\<close>

theorem register_emits_after_store_witness:
  "register ''cidA'' initial = Inr (0, step (Register ''cidA'') initial) \<and>
   events (step (Register ''cidA'') initial) = [AssetRegistered 0 ''cidA''] \<and>
   cids (step (Register ''cidA'') initial) 0 = ''cidA'' \<and>
   events_stored (run [Register ''cidA''] initial) \<and>
   AssetRegistered 0 ''cidA'' \<in> set (events (run [Register ''cidA''] initial)) \<and>
   cids (run [Register ''cidA''] initial) (event_id (AssetRegistered 0 ''cidA'')) =
     event_cid (AssetRegistered 0 ''cidA'')"
proof -
  have h: "register ''cidA'' initial = Inr (0, step (Register ''cidA'') initial)"
    by (simp add: register_eq step_Register initial_def)
  have e: "events initial = []"
    by (simp add: initial_def)
  have m: "AssetRegistered 0 ''cidA'' \<in> set (events (run [Register ''cidA''] initial))"
    by (simp add: step_Register initial_def)
  have st: "events_stored (run [Register ''cidA''] initial)"
    using register_emits_after_store [OF h, of "[Register ''cidA'']"] by blast
  from st m have "cids (run [Register ''cidA''] initial) (event_id (AssetRegistered 0 ''cidA'')) =
     event_cid (AssetRegistered 0 ''cidA'')"
    unfolding events_stored_def by blast
  with register_emits_after_store [OF h, of "[Register ''cidA'']"] h e m show ?thesis
    by simp
qed

subsection \<open>C10: an empty record reads as an absent one\<close>

text \<open>
  C10. When the empty string is registered in a state reached from the initial
  one and gets the handle \<open>h\<close>, the lookup of \<open>h\<close> returns the empty string,
  and so does the lookup of every handle at or above the counter, none of which
  is assigned: through the lookup, the registered empty record and an absent
  record are the same.
\<close>

theorem empty_cid_reads_as_absent:
  assumes "register [] (run cs initial) = Inr (h, s')"
  shows "exec (Cids h) s' = Inr (RetString [], s') \<and>
         h < nextId s' \<and>
         (\<forall>k. nextId s' \<le> k \<longrightarrow> exec (Cids k) s' = Inr (RetString [], s')) \<and>
         (\<forall>k. nextId s' \<le> k \<longrightarrow> getRecord s' k = getRecord s' h)"
proof -
  have s': "s' = step (Register []) (run cs initial)"
    using assms exec_step [of "Register []" "run cs initial" "RetUint h" s'] by simp
  have "keys_below_nextId (run cs initial)"
    by (rule keys_below_run) (rule keys_below_initial)
  then have "keys_below_nextId s'"
    unfolding s' by (rule keys_below_step)
  then have absent: "cids s' k = []" if "nextId s' \<le> k" for k
    using that by (auto simp: keys_below_nextId_def)
  from assms have "cids s' h = []" and "h < nextId s'"
    by (auto simp: register_Inr less_inc_iff)
  with absent show ?thesis
    by (simp add: getRecord_def)
qed

text \<open>
  The empty string registered after \<open>''cidA''\<close> gets handle 1; handle 2 is
  not assigned; both read as the empty string.
\<close>

theorem empty_cid_reads_as_absent_witness:
  "register [] (run [Register ''cidA''] initial) =
     Inr (1, run [Register ''cidA'', Register []] initial) \<and>
   exec (Cids 1) (run [Register ''cidA'', Register []] initial) =
     Inr (RetString [], run [Register ''cidA'', Register []] initial) \<and>
   nextId (run [Register ''cidA'', Register []] initial) \<le> 2 \<and>
   exec (Cids 2) (run [Register ''cidA'', Register []] initial) =
     Inr (RetString [], run [Register ''cidA'', Register []] initial)"
proof -
  have h: "register [] (run [Register ''cidA''] initial) =
     Inr (1, run [Register ''cidA'', Register []] initial)"
    by (simp add: register_eq step_Register initial_def)
  have n: "nextId (run [Register ''cidA'', Register []] initial) \<le> 2"
    by (simp add: step_Register initial_def)
  from empty_cid_reads_as_absent [OF h] h n show ?thesis
    by blast
qed

end
